theory Spec2Isabelle
  imports Main
begin

section \<open>The subscription registry of deepstream.io\<close>

text \<open>
  A shallow embedding of \<^verbatim>\<open>DefaultSubscriptionRegistry\<close>
  (\<^verbatim>\<open>src/services/subscription-registry/default-subscription-registry.ts\<close>).

  The class keeps two JavaScript maps that share mutable \<^verbatim>\<open>Subscription\<close> objects:
  \<^verbatim>\<open>subscriptions\<close> (name to Subscription) and \<^verbatim>\<open>sockets\<close> (socket to the set of
  Subscriptions it holds). The sharing is modelled by an explicit store: a Subscription
  is an address, and \<open>heap\<close> gives the object at an address. A JavaScript \<^verbatim>\<open>Set\<close>
  iterates in insertion order; it is a list without repetitions, \<^verbatim>\<open>add\<close> appends a new
  element at the end and \<^verbatim>\<open>delete\<close> removes it. Sockets are compared by identity
  (\<^verbatim>\<open>===\<close>), so a socket is the number that identifies the object.

  Every call the registry makes on a collaborator (a socket, the cluster state registry,
  the cluster node, the monitoring service, the logger, the subscription listener) is
  recorded, oldest first, in the field \<open>calls\<close>.
\<close>

subsection \<open>Data\<close>

type_synonym SocketWrapper = nat
type_synonym addr = nat
type_synonym action = nat
type_synonym topic = nat

datatype LOG_LEVEL = DEBUG | INFO | WARN | ERROR | OFF

text \<open>
  The fields of a \<^verbatim>\<open>Message\<close> that the registry reads or writes. A field that is
  absent (\<^verbatim>\<open>undefined\<close>) is \<open>None\<close>; \<open>m_names\<close> is the array of a
  \<^verbatim>\<open>BulkSubscriptionMessage\<close>, empty on any other message.
\<close>

record Message =
  m_topic :: topic
  m_action :: "action option"
  m_name :: "string option"
  m_names :: "string list"
  m_correlationId :: "string option"
  m_originalAction :: "action option"

record Subscription =
  sub_name :: string
  sub_sockets :: "SocketWrapper list"

text \<open>
  The value \<^verbatim>\<open>first.getMessage(message)\<close> returns is built by the socket; the registry
  only passes it on, so it is kept symbolic.
\<close>

datatype built = Built SocketWrapper Message

datatype event =
    OnClose SocketWrapper
  | RemoveOnClose SocketWrapper
  | SendMessage SocketWrapper Message
  | SendAckMessage SocketWrapper Message
  | GetMessage SocketWrapper Message
  | SendBuiltMessage SocketWrapper built bool
  | ClusterAdd string
  | ClusterRemove string
  | ClusterOnAdd nat
  | ClusterOnRemove nat
  | ClusterSend Message
  | OnBroadcast Message nat
  | OnSubscriptionMade string SocketWrapper
  | OnSubscriptionRemoved string SocketWrapper
  | LoggerWarn "action option" string SocketWrapper
  | LoggerDebug "action option" string SocketWrapper
  | LoggerError "action option"

text \<open>
  \<open>constants\<close> is a JavaScript object used as a table: the keys it has, each with its
  value (\<open>None\<close> for \<^verbatim>\<open>undefined\<close>). \<open>shouldLog\<close> stands for
  \<^verbatim>\<open>this.services.logger.shouldLog\<close>.
\<close>

record Registry =
  sockets :: "SocketWrapper \<rightharpoonup> addr list"
  subscriptions :: "string \<rightharpoonup> addr"
  subscriptionListener :: "nat option"
  constants :: "string \<rightharpoonup> action option"
  topic :: topic
  shouldLog :: "LOG_LEVEL \<Rightarrow> bool"
  heap :: "addr \<Rightarrow> Subscription"
  nextAddr :: addr
  calls :: "event list"

datatype error = TypeError

subsection \<open>JavaScript primitives\<close>

definition set_add :: "'a \<Rightarrow> 'a list \<Rightarrow> 'a list" where
  "set_add x xs = (if x \<in> set xs then xs else xs @ [x])"

definition set_delete :: "'a \<Rightarrow> 'a list \<Rightarrow> 'a list" where
  "set_delete x xs = removeAll x xs"

text \<open>Reading a property of an object: \<^verbatim>\<open>undefined\<close> when the key is missing.\<close>

definition read_key :: "(string \<rightharpoonup> action option) \<Rightarrow> string \<Rightarrow> action option" where
  "read_key obj k = (case obj k of Some v \<Rightarrow> v | None \<Rightarrow> None)"

text \<open>\<^verbatim>\<open>String.prototype.toUpperCase\<close> on ASCII text: the letters a to z are raised.\<close>

definition upper_char :: "char \<Rightarrow> char" where
  "upper_char c =
     (let n = (of_char c :: nat) in if 97 \<le> n \<and> n \<le> 122 then char_of (n - 32) else c)"

definition toUpperCase :: "string \<Rightarrow> string" where
  "toUpperCase s = map upper_char s"

definition emit :: "event list \<Rightarrow> Registry \<Rightarrow> Registry" where
  "emit es r = r\<lparr>calls := calls r @ es\<rparr>"

text \<open>The calls made between an earlier state and a later one.\<close>

definition new_calls :: "Registry \<Rightarrow> Registry \<Rightarrow> event list" where
  "new_calls r r' = drop (length (calls r)) (calls r')"

subsection \<open>Construction and configuration\<close>

text \<open>
  The constructor. The action enums live in \<^verbatim>\<open>constants\<close>, outside the sources at
  hand, so the namespace the \<^verbatim>\<open>switch\<close> selects is the parameter \<open>acts\<close>: the code
  of a member, \<open>None\<close> where the namespace has no such member.
\<close>

definition init :: "topic \<Rightarrow> (string \<Rightarrow> action option) \<Rightarrow> (LOG_LEVEL \<Rightarrow> bool) \<Rightarrow> Registry" where
  "init tp acts lg =
     \<lparr> sockets = Map.empty,
       subscriptions = Map.empty,
       subscriptionListener = None,
       constants = [''MULTIPLE_SUBSCRIPTIONS'' \<mapsto> acts ''MULTIPLE_SUBSCRIPTIONS'',
                    ''NOT_SUBSCRIBED'' \<mapsto> acts ''NOT_SUBSCRIBED'',
                    ''SUBSCRIBE'' \<mapsto> acts ''SUBSCRIBE'',
                    ''UNSUBSCRIBE'' \<mapsto> acts ''UNSUBSCRIBE''],
       topic = tp,
       shouldLog = lg,
       heap = (\<lambda>_. \<lparr>sub_name = [], sub_sockets = []\<rparr>),
       nextAddr = 0,
       calls = [] \<rparr>"

definition setAction :: "string \<Rightarrow> action \<Rightarrow> Registry \<Rightarrow> Registry" where
  "setAction nm v r = r\<lparr>constants := (constants r)(toUpperCase nm \<mapsto> Some v)\<rparr>"

definition setSubscriptionListener :: "nat \<Rightarrow> Registry \<Rightarrow> Registry" where
  "setSubscriptionListener l r =
     emit [ClusterOnAdd l, ClusterOnRemove l] (r\<lparr>subscriptionListener := Some l\<rparr>)"

subsection \<open>Queries\<close>

definition getLocalSubscribers :: "string \<Rightarrow> Registry \<Rightarrow> SocketWrapper list" where
  "getLocalSubscribers nm r =
     (case subscriptions r nm of Some a \<Rightarrow> sub_sockets (heap r a) | None \<Rightarrow> [])"

definition hasLocalSubscribers :: "string \<Rightarrow> Registry \<Rightarrow> bool" where
  "hasLocalSubscribers nm r = (subscriptions r nm \<noteq> None)"

subsection \<open>Subscribing and unsubscribing\<close>

definition addSocket :: "addr \<Rightarrow> SocketWrapper \<Rightarrow> Registry \<Rightarrow> Registry" where
  "addSocket a s r =
     (let held = (case sockets r s of Some h \<Rightarrow> h | None \<Rightarrow> []);
          r1 = (if held = []
                then emit [OnClose s] (r\<lparr>sockets := (sockets r)(s \<mapsto> held)\<rparr>)
                else r);
          r2 = r1\<lparr>sockets := (sockets r1)(s \<mapsto> set_add a held)\<rparr>;
          r3 = emit [ClusterAdd (sub_name (heap r2 a))] r2
      in if subscriptionListener r3 \<noteq> None
         then emit [OnSubscriptionMade (sub_name (heap r3 a)) s] r3
         else r3)"

definition removeSocket :: "addr \<Rightarrow> SocketWrapper \<Rightarrow> Registry \<Rightarrow> Registry" where
  "removeSocket a s r =
     (let r1 = (if sub_sockets (heap r a) = []
                then emit [RemoveOnClose s]
                       (r\<lparr>subscriptions := (subscriptions r)(sub_name (heap r a) := None)\<rparr>)
                else r);
          r2 = (if subscriptionListener r1 \<noteq> None
                then emit [OnSubscriptionRemoved (sub_name (heap r1 a)) s] r1
                else r1);
          r3 = emit [ClusterRemove (sub_name (heap r2 a))] r2
      in case sockets r3 s of
           Some held \<Rightarrow> r3\<lparr>sockets := (sockets r3)(s \<mapsto> set_delete a held)\<rparr>
         | None \<Rightarrow> r3)"

text \<open>\<^verbatim>\<open>subscription.sockets.add(socket)\<close> and \<^verbatim>\<open>subscription.sockets.delete(socket)\<close>.\<close>

definition sockets_add :: "addr \<Rightarrow> SocketWrapper \<Rightarrow> Registry \<Rightarrow> Registry" where
  "sockets_add a s r =
     r\<lparr>heap := (heap r)(a := (heap r a)\<lparr>sub_sockets := set_add s (sub_sockets (heap r a))\<rparr>)\<rparr>"

definition sockets_delete :: "addr \<Rightarrow> SocketWrapper \<Rightarrow> Registry \<Rightarrow> Registry" where
  "sockets_delete a s r =
     r\<lparr>heap := (heap r)(a := (heap r a)\<lparr>sub_sockets := set_delete s (sub_sockets (heap r a))\<rparr>)\<rparr>"

text \<open>
  \<^verbatim>\<open>this.subscriptions.get(name) || { name, sockets: new Set() }\<close>: the object of the
  name, or a new object at the next free address.
\<close>

definition lookup_or_new :: "string \<Rightarrow> Registry \<Rightarrow> addr \<times> Registry" where
  "lookup_or_new nm r =
     (case subscriptions r nm of
        Some a \<Rightarrow> (a, r)
      | None \<Rightarrow> (nextAddr r,
                 r\<lparr>heap := (heap r)(nextAddr r := \<lparr>sub_name = nm, sub_sockets = []\<rparr>),
                   nextAddr := Suc (nextAddr r)\<rparr>))"

definition multiple_subscriptions_msg :: "Registry \<Rightarrow> Message \<Rightarrow> string \<Rightarrow> Message" where
  "multiple_subscriptions_msg r m nm =
     \<lparr> m_topic = topic r,
       m_action = read_key (constants r) ''MULTIPLE_SUBSCRIPTIONS'',
       m_name = Some nm,
       m_names = [],
       m_correlationId = None,
       m_originalAction = m_action m \<rparr>"

definition not_subscribed_msg :: "Registry \<Rightarrow> Message \<Rightarrow> string \<Rightarrow> Message" where
  "not_subscribed_msg r m nm =
     \<lparr> m_topic = topic r,
       m_action = read_key (constants r) ''NOT_SUBSCRIBED'',
       m_name = Some nm,
       m_names = [],
       m_correlationId = None,
       m_originalAction = m_action m \<rparr>"

definition subscribe_finish :: "addr \<Rightarrow> string \<Rightarrow> Message \<Rightarrow> SocketWrapper \<Rightarrow> bool \<Rightarrow> Registry \<Rightarrow> Registry" where
  "subscribe_finish a nm m s silent r =
     (let r1 = addSocket a s (sockets_add a s r)
      in if \<not> silent
         then emit ((if shouldLog r1 DEBUG
                     then [LoggerDebug (read_key (constants r1) ''SUBSCRIBE'') nm s] else [])
                    @ [SendAckMessage s m]) r1
         else r1)"

definition subscribe :: "string \<Rightarrow> Message \<Rightarrow> SocketWrapper \<Rightarrow> bool \<Rightarrow> Registry \<Rightarrow> Registry" where
  "subscribe nm m s silent r =
     (case lookup_or_new nm r of (a, r0) \<Rightarrow>
        if sub_sockets (heap r0 a) = []
        then subscribe_finish a nm m s silent (r0\<lparr>subscriptions := (subscriptions r0)(nm \<mapsto> a)\<rparr>)
        else if s \<in> set (sub_sockets (heap r0 a))
        then emit ((if shouldLog r0 WARN
                    then [LoggerWarn (read_key (constants r0) ''MULTIPLE_SUBSCRIPTIONS'') nm s] else [])
                   @ [SendMessage s (multiple_subscriptions_msg r0 m nm)]) r0
        else subscribe_finish a nm m s silent r0)"

definition unsubscribe_fail :: "string \<Rightarrow> Message \<Rightarrow> SocketWrapper \<Rightarrow> bool \<Rightarrow> Registry \<Rightarrow> Registry" where
  "unsubscribe_fail nm m s silent r =
     (if \<not> silent
      then emit ((if shouldLog r WARN
                  then [LoggerWarn (read_key (constants r) ''NOT_SUBSCRIBED'') nm s] else [])
                 @ [SendMessage s (not_subscribed_msg r m nm)]) r
      else r)"

definition unsubscribe :: "string \<Rightarrow> Message \<Rightarrow> SocketWrapper \<Rightarrow> bool \<Rightarrow> Registry \<Rightarrow> Registry" where
  "unsubscribe nm m s silent r =
     (case subscriptions r nm of
        None \<Rightarrow> unsubscribe_fail nm m s silent r
      | Some a \<Rightarrow>
          if s \<notin> set (sub_sockets (heap r a))
          then unsubscribe_fail nm m s silent r
          else (let r1 = removeSocket a s (sockets_delete a s r)
                in if \<not> silent
                   then emit ((if shouldLog r1 DEBUG
                               then [LoggerDebug (read_key (constants r1) ''UNSUBSCRIBE'') nm s] else [])
                              @ [SendAckMessage s m]) r1
                   else r1))"

subsection \<open>Bulk operations\<close>

definition bulk_ack :: "Message \<Rightarrow> Message" where
  "bulk_ack m =
     \<lparr> m_topic = m_topic m,
       m_action = m_action m,
       m_name = None,
       m_names = [],
       m_correlationId = m_correlationId m,
       m_originalAction = None \<rparr>"

text \<open>The loop \<^verbatim>\<open>for (let i = 0; i < length; i++)\<close> of \<^verbatim>\<open>subscribeBulk\<close>.\<close>

function subscribeBulk_loop :: "nat \<Rightarrow> nat \<Rightarrow> Message \<Rightarrow> SocketWrapper \<Rightarrow> Registry \<Rightarrow> Registry" where
  "subscribeBulk_loop i len m s r =
     (if i < len
      then subscribeBulk_loop (Suc i) len m s (subscribe (m_names m ! i) m s True r)
      else r)"
  by pat_completeness auto
termination
  by (relation "measure (\<lambda>(i, len, m, s, r). len - i)") auto

declare subscribeBulk_loop.simps [simp del]

definition subscribeBulk :: "Message \<Rightarrow> SocketWrapper \<Rightarrow> bool \<Rightarrow> Registry \<Rightarrow> Registry" where
  "subscribeBulk m s silent r =
     (let r1 = subscribeBulk_loop 0 (length (m_names m)) m s r
      in if \<not> silent then emit [SendAckMessage s (bulk_ack m)] r1 else r1)"

text \<open>\<^verbatim>\<open>message.names.forEach\<close> of \<^verbatim>\<open>unsubscribeBulk\<close>.\<close>

fun unsubscribeBulk_forEach :: "string list \<Rightarrow> Message \<Rightarrow> SocketWrapper \<Rightarrow> Registry \<Rightarrow> Registry" where
  "unsubscribeBulk_forEach [] m s r = r"
| "unsubscribeBulk_forEach (nm # nms) m s r =
     unsubscribeBulk_forEach nms m s (unsubscribe nm m s True r)"

definition unsubscribeBulk :: "Message \<Rightarrow> SocketWrapper \<Rightarrow> bool \<Rightarrow> Registry \<Rightarrow> Registry" where
  "unsubscribeBulk m s silent r =
     (let r1 = unsubscribeBulk_forEach (m_names m) m s r
      in if \<not> silent then emit [SendAckMessage s (bulk_ack m)] r1 else r1)"

subsection \<open>The close hook\<close>

text \<open>
  The loop of \<^verbatim>\<open>onSocketClose\<close> runs over the live set the socket holds while
  \<^verbatim>\<open>removeSocket\<close> deletes the element being visited from it. A JavaScript set iterator then
  goes on with the elements that follow, so the loop visits each element the set had at
  the start, in order. \<open>close_step\<close> is the body of the loop.
\<close>

definition close_step :: "addr \<Rightarrow> SocketWrapper \<Rightarrow> Registry \<Rightarrow> Registry" where
  "close_step a s r = removeSocket a s (sockets_delete a s r)"

fun onSocketClose_loop :: "addr list \<Rightarrow> SocketWrapper \<Rightarrow> Registry \<Rightarrow> Registry" where
  "onSocketClose_loop [] s r = r"
| "onSocketClose_loop (a # as) s r = onSocketClose_loop as s (close_step a s r)"

definition onSocketClose :: "SocketWrapper \<Rightarrow> Registry \<Rightarrow> Registry" where
  "onSocketClose s r =
     (case sockets r s of
        None \<Rightarrow> emit [LoggerError (read_key (constants r) ''NOT_SUBSCRIBED'')] r
      | Some held \<Rightarrow> onSocketClose_loop held s r)"

subsection \<open>Fanout\<close>

fun send_loop :: "SocketWrapper list \<Rightarrow> SocketWrapper option \<Rightarrow> built \<Rightarrow> Registry \<Rightarrow> Registry" where
  "send_loop [] sender msg r = r"
| "send_loop (socket # rest) sender msg r =
     (if Some socket = sender
      then send_loop rest sender msg r
      else send_loop rest sender msg (emit [SendBuiltMessage socket msg True] r))"

text \<open>
  \<^verbatim>\<open>subscribers.values().next().value\<close> is \<^verbatim>\<open>undefined\<close> on an empty set, and the call of
  \<^verbatim>\<open>getMessage\<close> on it throws a TypeError; the result then holds the registry as the throw
  leaves it.
\<close>

definition sendToSubscribers ::
  "string \<Rightarrow> Message \<Rightarrow> bool \<Rightarrow> SocketWrapper option \<Rightarrow> bool \<Rightarrow> Registry \<Rightarrow> (error \<times> Registry) + Registry" where
  "sendToSubscribers nm message noDelay senderSocket suppressRemote r =
     (let r1 = (if senderSocket \<noteq> None \<and> \<not> suppressRemote
                then emit [ClusterSend message] r else r)
      in case subscriptions r1 nm of
           None \<Rightarrow> Inr r1
         | Some a \<Rightarrow>
             (let subscribers = sub_sockets (heap r1 a);
                  r2 = emit [OnBroadcast message (length subscribers)] r1
              in case subscribers of
                   [] \<Rightarrow> Inl (TypeError, r2)
                 | first # _ \<Rightarrow>
                     Inr (send_loop subscribers senderSocket (Built first message)
                            (emit [GetMessage first message] r2))))"

subsection \<open>Sequences of operations\<close>

datatype operation =
    Subscribe string Message SocketWrapper bool
  | Unsubscribe string Message SocketWrapper bool
  | SubscribeBulk Message SocketWrapper bool
  | UnsubscribeBulk Message SocketWrapper bool
  | SocketClose SocketWrapper
  | SetAction string action
  | SetSubscriptionListener nat
  | SendToSubscribers string Message bool "SocketWrapper option" bool

fun apply_operation :: "operation \<Rightarrow> Registry \<Rightarrow> Registry" where
  "apply_operation (Subscribe nm m s silent) r = subscribe nm m s silent r"
| "apply_operation (Unsubscribe nm m s silent) r = unsubscribe nm m s silent r"
| "apply_operation (SubscribeBulk m s silent) r = subscribeBulk m s silent r"
| "apply_operation (UnsubscribeBulk m s silent) r = unsubscribeBulk m s silent r"
| "apply_operation (SocketClose s) r = onSocketClose s r"
| "apply_operation (SetAction nm v) r = setAction nm v r"
| "apply_operation (SetSubscriptionListener l) r = setSubscriptionListener l r"
| "apply_operation (SendToSubscribers nm m noDelay sender suppressRemote) r =
     (case sendToSubscribers nm m noDelay sender suppressRemote r of
        Inr r' \<Rightarrow> r'
      | Inl (e, r') \<Rightarrow> r')"

text \<open>The registry after a sequence of operations, the first of the list applied first.\<close>

fun run :: "operation list \<Rightarrow> Registry \<Rightarrow> Registry" where
  "run [] r = r"
| "run (x # xs) r = run xs (apply_operation x r)"

subsection \<open>Observations on the calls, and example states\<close>

text \<open>The calls that register or unregister the close hook on a socket.\<close>

fun is_hook_call :: "SocketWrapper \<Rightarrow> event \<Rightarrow> bool" where
  "is_hook_call s (OnClose s') = (s' = s)"
| "is_hook_call s (RemoveOnClose s') = (s' = s)"
| "is_hook_call s _ = False"

fun isOnSubscriptionRemoved :: "event \<Rightarrow> bool" where
  "isOnSubscriptionRemoved (OnSubscriptionRemoved nm s) = True"
| "isOnSubscriptionRemoved _ = False"

fun isSendMessage :: "event \<Rightarrow> bool" where
  "isSendMessage (SendMessage s m) = True"
| "isSendMessage _ = False"

fun isSendAckMessage :: "event \<Rightarrow> bool" where
  "isSendAckMessage (SendAckMessage s m) = True"
| "isSendAckMessage _ = False"

definition canonical :: "string set" where
  "canonical = {''MULTIPLE_SUBSCRIPTIONS'', ''NOT_SUBSCRIBED'', ''SUBSCRIBE'', ''UNSUBSCRIBE''}"

text \<open>A request with a given action, and a fresh registry that logs nothing.\<close>

definition msg :: "action \<Rightarrow> Message" where
  "msg a = \<lparr> m_topic = 3, m_action = Some a, m_name = None, m_names = [],
             m_correlationId = None, m_originalAction = None \<rparr>"

definition registry0 :: Registry where
  "registry0 = init 3 (\<lambda>_. None) (\<lambda>_. False)"

text \<open>Socket 1 holds the names a, b and c, and a listener is installed.\<close>

definition closing_example :: Registry where
  "closing_example =
     subscribe ''c'' (msg 2) 1 False (subscribe ''b'' (msg 2) 1 False
       (subscribe ''a'' (msg 2) 1 False (setSubscriptionListener 0 registry0)))"

text \<open>
  What holds of the two maps and the store in every state the operations reach: a name
  in \<^verbatim>\<open>subscriptions\<close> is bound to an allocated object that carries this name and has a
  subscriber. It is used in the proofs only.
\<close>

definition registry_inv :: "Registry \<Rightarrow> bool" where
  "registry_inv r =
     (\<forall>nm a. subscriptions r nm = Some a \<longrightarrow>
        sub_sockets (heap r a) \<noteq> [] \<and> sub_name (heap r a) = nm \<and> a < nextAddr r)"

text \<open>Sockets 1 and 2 subscribe to a, then socket 1 unsubscribes.\<close>

definition example_ops :: "operation list" where
  "example_ops =
     [Subscribe ''a'' (msg 2) 1 False, Subscribe ''a'' (msg 2) 2 False,
      Unsubscribe ''a'' (msg 3) 1 False]"

text \<open>Sockets 1, 2 and 3 subscribe to room/1.\<close>

definition room_ops :: "operation list" where
  "room_ops =
     [Subscribe ''room/1'' (msg 2) 1 False, Subscribe ''room/1'' (msg 2) 2 False,
      Subscribe ''room/1'' (msg 2) 3 False]"

text \<open>A bulk request for a, b and c; one that names a twice; one for the name y alone.\<close>

definition bulk_msg :: Message where
  "bulk_msg = \<lparr> m_topic = 3, m_action = Some 2, m_name = None, m_names = [''a'', ''b'', ''c''],
                m_correlationId = Some ''k'', m_originalAction = None \<rparr>"

definition dup_msg :: Message where
  "dup_msg = \<lparr> m_topic = 3, m_action = Some 2, m_name = None, m_names = [''a'', ''b'', ''a''],
               m_correlationId = Some ''k'', m_originalAction = None \<rparr>"

definition y_msg :: Message where
  "y_msg = \<lparr> m_topic = 3, m_action = Some 3, m_name = None, m_names = [''y''],
             m_correlationId = Some ''k'', m_originalAction = None \<rparr>"

section \<open>Properties\<close>

subsection \<open>Basic facts\<close>

lemmas op_defs = subscribe_def unsubscribe_def lookup_or_new_def subscribe_finish_def
  unsubscribe_fail_def addSocket_def removeSocket_def sockets_add_def sockets_delete_def
  emit_def set_add_def set_delete_def

lemma emit_fields [simp]:
  "sockets (emit es r) = sockets r"
  "subscriptions (emit es r) = subscriptions r"
  "subscriptionListener (emit es r) = subscriptionListener r"
  "constants (emit es r) = constants r"
  "topic (emit es r) = topic r"
  "shouldLog (emit es r) = shouldLog r"
  "heap (emit es r) = heap r"
  "nextAddr (emit es r) = nextAddr r"
  "calls (emit es r) = calls r @ es"
  by (simp_all add: emit_def)

lemma new_calls_append: "calls r' = calls r @ es \<Longrightarrow> new_calls r r' = es"
  by (simp add: new_calls_def)

lemma upper_listen: "toUpperCase ''listen'' = ''LISTEN''"
  by code_simp

lemma upper_subscribe: "toUpperCase ''subscribe'' = ''SUBSCRIBE''"
  by code_simp

lemma listen_fresh: "''LISTEN'' \<notin> dom (constants registry0)"
  by (simp add: registry0_def init_def)

subsection \<open>The close hook and explicit unsubscribes\<close>

text \<open>
  Claim C1. The close hook is meant to be unregistered only when an unsubscribe clears
  the last subscription of the connection. \<^verbatim>\<open>addSocket\<close> registers it by the size of the
  set the socket holds, but \<^verbatim>\<open>removeSocket\<close> unregisters it by the size of the socket set
  of the \<^emph>\<open>name\<close>. Socket 1 subscribes to a and to b and unsubscribes from a: the call
  makes \<^verbatim>\<open>removeOnClose\<close> on socket 1, which still holds b and is still a subscriber of b,
  and is left without a close hook.
\<close>

theorem removeOnClose_while_subscribed:
  "let r2 = subscribe ''b'' (msg 2) 1 False (subscribe ''a'' (msg 2) 1 False registry0);
       r3 = unsubscribe ''a'' (msg 3) 1 False r2
   in new_calls r2 r3 = [RemoveOnClose 1, ClusterRemove ''a'', SendAckMessage 1 (msg 3)]
      \<and> getLocalSubscribers ''b'' r3 = [1]
      \<and> map (sub_name \<circ> heap r3) (the (sockets r3 1)) = [''b'']
      \<and> filter (is_hook_call 1) (calls r3) = [OnClose 1, RemoveOnClose 1]"
  by (simp add: registry0_def msg_def init_def op_defs new_calls_def getLocalSubscribers_def Let_def)

subsection \<open>Closing a socket\<close>

lemma close_step_frame:
  "subscriptionListener (close_step a s r) = subscriptionListener r"
  "sub_name (heap (close_step a s r) x) = sub_name (heap r x)"
  "sockets (close_step a s r) s = map_option (removeAll a) (sockets r s)"
  by (auto simp: close_step_def op_defs Let_def split: option.splits)

lemma close_step_calls:
  "\<exists>es. calls (close_step a s r) = calls r @ es
      \<and> filter isOnSubscriptionRemoved es =
          (if subscriptionListener r = None then []
           else [OnSubscriptionRemoved (sub_name (heap r a)) s])"
  by (auto simp: close_step_def op_defs Let_def split: option.splits)

lemma onSocketClose_loop_frame:
  "subscriptionListener (onSocketClose_loop as s r) = subscriptionListener r
   \<and> sockets (onSocketClose_loop as s r) s = map_option (filter (\<lambda>a. a \<notin> set as)) (sockets r s)"
proof (induction as arbitrary: r)
  case Nil
  show ?case by (simp add: option.map_ident)
next
  case (Cons a as)
  have "filter (\<lambda>x. x \<notin> set as) (removeAll a xs) = filter (\<lambda>x. x \<noteq> a \<and> x \<notin> set as) xs" for xs
    by (induction xs) auto
  then show ?case
    using Cons [of "close_step a s r"]
    by (simp add: close_step_frame option.map_comp comp_def)
qed

lemma onSocketClose_loop_calls:
  "\<exists>es. calls (onSocketClose_loop as s r) = calls r @ es
      \<and> filter isOnSubscriptionRemoved es =
          (if subscriptionListener r = None then []
           else map (\<lambda>a. OnSubscriptionRemoved (sub_name (heap r a)) s) as)"
proof (induction as arbitrary: r)
  case Nil
  show ?case by simp
next
  case (Cons a as)
  obtain es1 where 1: "calls (close_step a s r) = calls r @ es1"
    and 2: "filter isOnSubscriptionRemoved es1 =
          (if subscriptionListener r = None then []
           else [OnSubscriptionRemoved (sub_name (heap r a)) s])"
    using close_step_calls by blast
  obtain es2 where 3: "calls (onSocketClose_loop as s (close_step a s r)) = calls (close_step a s r) @ es2"
    and 4: "filter isOnSubscriptionRemoved es2 =
          (if subscriptionListener (close_step a s r) = None then []
           else map (\<lambda>x. OnSubscriptionRemoved (sub_name (heap (close_step a s r) x)) s) as)"
    using Cons [of "close_step a s r"] by blast
  have "calls (onSocketClose_loop (a # as) s r) = calls r @ (es1 @ es2)"
    using 1 3 by simp
  moreover have "filter isOnSubscriptionRemoved (es1 @ es2) =
          (if subscriptionListener r = None then []
           else map (\<lambda>a. OnSubscriptionRemoved (sub_name (heap r a)) s) (a # as))"
    using 2 4 by (simp add: close_step_frame)
  ultimately show ?case by blast
qed

lemma closing_example_facts:
  "sockets closing_example 1 = Some [0, 1, 2]"
  "subscriptionListener closing_example = Some 0"
  "map (\<lambda>a. sub_name (heap closing_example a)) [0, 1, 2] = [''a'', ''b'', ''c'']"
  by (simp_all add: closing_example_def registry0_def msg_def init_def
      setSubscriptionListener_def op_defs Let_def)

text \<open>
  Claim C2, as the code has it. When the socket holds the subscriptions \<open>held\<close>, the close
  hook calls \<^verbatim>\<open>onSubscriptionRemoved\<close> of the installed listener once for each of them, in
  the order of the set, with the name of the subscription (and makes no such call when no
  listener is installed). Afterwards the \<^verbatim>\<open>sockets\<close> map still has its entry for the
  socket: the entry is the empty set, since nothing in the class deletes from that map.
\<close>

theorem onSocketClose_removes_each:
  assumes "sockets r s = Some held"
  shows "filter isOnSubscriptionRemoved (new_calls r (onSocketClose s r)) =
           (if subscriptionListener r = None then []
            else map (\<lambda>a. OnSubscriptionRemoved (sub_name (heap r a)) s) held)
         \<and> sockets (onSocketClose s r) s = Some []"
proof -
  obtain es where "calls (onSocketClose_loop held s r) = calls r @ es"
    and "filter isOnSubscriptionRemoved es =
          (if subscriptionListener r = None then []
           else map (\<lambda>a. OnSubscriptionRemoved (sub_name (heap r a)) s) held)"
    using onSocketClose_loop_calls by blast
  then have "filter isOnSubscriptionRemoved (new_calls r (onSocketClose s r)) =
           (if subscriptionListener r = None then []
            else map (\<lambda>a. OnSubscriptionRemoved (sub_name (heap r a)) s) held)"
    using assms by (simp add: onSocketClose_def new_calls_append)
  moreover have "sockets (onSocketClose s r) s = Some []"
    using assms onSocketClose_loop_frame [of held s r] by (simp add: onSocketClose_def)
  ultimately show ?thesis by blast
qed

theorem onSocketClose_removes_each_witness:
  "sockets closing_example 1 = Some [0, 1, 2]
   \<and> filter isOnSubscriptionRemoved (new_calls closing_example (onSocketClose 1 closing_example)) =
       [OnSubscriptionRemoved ''a'' 1, OnSubscriptionRemoved ''b'' 1, OnSubscriptionRemoved ''c'' 1]
   \<and> sockets (onSocketClose 1 closing_example) 1 = Some []"
  using onSocketClose_removes_each [of closing_example 1 "[0, 1, 2]"] closing_example_facts
  by simp

text \<open>
  The entry is not absent after the close: socket 1 holds one subscription, the hook
  runs, and the map still has the socket as a key.
\<close>

theorem onSocketClose_entry_counterexample:
  "sockets (subscribe ''a'' (msg 2) 1 False registry0) 1 = Some [0]
   \<and> sockets (onSocketClose 1 (subscribe ''a'' (msg 2) 1 False registry0)) 1 \<noteq> None"
  by (simp add: registry0_def msg_def init_def onSocketClose_def close_step_def op_defs Let_def)

subsection \<open>Subscribe, then unsubscribe\<close>

text \<open>
  Claim C3, as the code has it. On a fresh registry, a subscribe followed by the
  unsubscribe of the same name by the same socket leaves no name in \<^verbatim>\<open>subscriptions\<close>
  and no subscriber of the name; the close hook was registered once and then removed.
  The \<^verbatim>\<open>sockets\<close> map is not as it was: it keeps an entry for the socket, the empty set.
\<close>

theorem subscribe_unsubscribe_round_trip:
  "let r = unsubscribe nm m' s silent' (subscribe nm m s silent (init tp acts lg))
   in subscriptions r = Map.empty
      \<and> sockets r = [s \<mapsto> []]
      \<and> getLocalSubscribers nm r = []
      \<and> filter (is_hook_call s) (calls r) = [OnClose s, RemoveOnClose s]"
  by (simp add: init_def op_defs getLocalSubscribers_def Let_def)

text \<open>The state after the round trip differs from the fresh one at the socket's entry.\<close>

theorem round_trip_counterexample:
  "sockets (unsubscribe ''a'' (msg 3) 1 False (subscribe ''a'' (msg 2) 1 False registry0)) 1 \<noteq> None
   \<and> sockets registry0 1 = None"
  by (simp add: registry0_def msg_def init_def op_defs Let_def)

subsection \<open>Subscribing twice\<close>


lemma subscribe_dup:
  assumes "subscriptions r nm = Some a" and "s \<in> set (sub_sockets (heap r a))"
  shows "subscribe nm m s silent r =
         emit ((if shouldLog r WARN
                then [LoggerWarn (read_key (constants r) ''MULTIPLE_SUBSCRIPTIONS'') nm s] else [])
               @ [SendMessage s (multiple_subscriptions_msg r m nm)]) r"
  using assms by (auto simp: subscribe_def lookup_or_new_def)

lemma subscribe_subscribed:
  "\<exists>a. subscriptions (subscribe nm m s silent r) nm = Some a
       \<and> s \<in> set (sub_sockets (heap (subscribe nm m s silent r) a))"
  by (auto simp: op_defs Let_def split: option.splits)

lemma subscribe_frame:
  "shouldLog (subscribe nm m s silent r) = shouldLog r"
  "constants (subscribe nm m s silent r) = constants r"
  "topic (subscribe nm m s silent r) = topic r"
  "subscriptionListener (subscribe nm m s silent r) = subscriptionListener r"
  by (auto simp: op_defs Let_def split: option.splits)



subsection \<open>Rebinding an action\<close>

text \<open>
  Claim C8, as the code has it. \<^verbatim>\<open>setAction\<close> rejects nothing: it binds the upper-cased
  name to the value, whatever the name is. For one of the four canonical names that
  rebinds the slot; for any other name the table gains the upper-cased name as a key.
\<close>

theorem setAction_stores:
  "constants (setAction nm v r) = (constants r)(toUpperCase nm \<mapsto> Some v)
   \<and> read_key (constants (setAction nm v r)) (toUpperCase nm) = Some v
   \<and> dom (constants (setAction nm v r)) = insert (toUpperCase nm) (dom (constants r))
   \<and> (toUpperCase nm \<notin> dom (constants r) \<longrightarrow>
        dom (constants (setAction nm v r)) \<noteq> dom (constants r))"
  by (auto simp: setAction_def read_key_def)

theorem setAction_stores_witness:
  "read_key (constants (setAction ''subscribe'' 9 registry0)) ''SUBSCRIBE'' = Some 9
   \<and> ''LISTEN'' \<notin> dom (constants registry0)
   \<and> dom (constants (setAction ''listen'' 7 registry0)) \<noteq> dom (constants registry0)"
proof -
  have 1: "read_key (constants (setAction ''subscribe'' 9 registry0)) (toUpperCase ''subscribe'') = Some 9"
    using setAction_stores [of "''subscribe''" 9 registry0] by blast
  have 2: "toUpperCase ''listen'' \<notin> dom (constants registry0) \<longrightarrow>
        dom (constants (setAction ''listen'' 7 registry0)) \<noteq> dom (constants registry0)"
    using setAction_stores [of "''listen''" 7 registry0] by blast
  show ?thesis
    using 1 2 listen_fresh unfolding upper_subscribe upper_listen by blast
qed

text \<open>A name outside the four is not rejected: the table has a new key afterwards.\<close>

theorem setAction_unknown_counterexample:
  "toUpperCase ''listen'' \<notin> canonical
   \<and> toUpperCase ''listen'' \<notin> dom (constants registry0)
   \<and> toUpperCase ''listen'' \<in> dom (constants (setAction ''listen'' 7 registry0))"
  by (simp add: upper_listen canonical_def registry0_def init_def setAction_def)

subsection \<open>No subscription without a subscriber\<close>

lemma registry_inv_cong:
  "subscriptions r' = subscriptions r \<Longrightarrow> heap r' = heap r \<Longrightarrow> nextAddr r' = nextAddr r
   \<Longrightarrow> registry_inv r' = registry_inv r"
  by (simp add: registry_inv_def)

lemma registry_inv_emit [simp]: "registry_inv (emit es r) = registry_inv r"
  by (simp add: registry_inv_def)

lemma registry_inv_setters:
  "registry_inv (setAction nm v r) = registry_inv r"
  "registry_inv (setSubscriptionListener l r) = registry_inv r"
  by (simp_all add: registry_inv_def setAction_def setSubscriptionListener_def)

lemma registry_inv_init: "registry_inv (init tp acts lg)"
  by (simp add: registry_inv_def init_def)

lemma addSocket_frame:
  "subscriptions (addSocket a s r) = subscriptions r"
  "heap (addSocket a s r) = heap r"
  "nextAddr (addSocket a s r) = nextAddr r"
  by (simp_all add: addSocket_def Let_def)

lemma sockets_add_frame:
  "subscriptions (sockets_add a s r) = subscriptions r"
  "nextAddr (sockets_add a s r) = nextAddr r"
  "sub_name (heap (sockets_add a s r) x) = sub_name (heap r x)"
  "x \<noteq> a \<Longrightarrow> heap (sockets_add a s r) x = heap r x"
  "sub_sockets (heap (sockets_add a s r) a) \<noteq> []"
  by (auto simp: sockets_add_def set_add_def)

lemma registry_inv_sockets_add:
  assumes "\<And>n x. subscriptions r n = Some x \<Longrightarrow>
             (x = a \<or> sub_sockets (heap r x) \<noteq> []) \<and> sub_name (heap r x) = n \<and> x < nextAddr r"
  shows "registry_inv (sockets_add a s r)"
  unfolding registry_inv_def
proof (intro allI impI)
  fix n x
  assume "subscriptions (sockets_add a s r) n = Some x"
  then have old: "subscriptions r n = Some x"
    by (simp add: sockets_add_frame)
  have "sub_sockets (heap (sockets_add a s r) x) \<noteq> []"
  proof (cases "x = a")
    case True
    then show ?thesis by (simp add: sockets_add_frame)
  next
    case False
    then show ?thesis using assms [OF old] by (simp add: sockets_add_frame)
  qed
  then show "sub_sockets (heap (sockets_add a s r) x) \<noteq> [] \<and>
       sub_name (heap (sockets_add a s r) x) = n \<and> x < nextAddr (sockets_add a s r)"
    using assms [OF old] by (simp add: sockets_add_frame)
qed

lemma registry_inv_subscribe_finish:
  assumes "\<And>n x. subscriptions r n = Some x \<Longrightarrow>
             (x = a \<or> sub_sockets (heap r x) \<noteq> []) \<and> sub_name (heap r x) = n \<and> x < nextAddr r"
  shows "registry_inv (subscribe_finish a nm m s silent r)"
proof -
  have "registry_inv (sockets_add a s r)"
    using assms by (rule registry_inv_sockets_add)
  then have "registry_inv (addSocket a s (sockets_add a s r))"
    by (simp add: registry_inv_cong [of "addSocket a s (sockets_add a s r)" "sockets_add a s r"]
        addSocket_frame)
  then show ?thesis
    by (simp add: subscribe_finish_def Let_def)
qed

lemma registry_inv_subscribe:
  assumes "registry_inv r"
  shows "registry_inv (subscribe nm m s silent r)"
proof (cases "subscriptions r nm")
  case None
  let ?r0 = "r\<lparr>heap := (heap r)(nextAddr r := \<lparr>sub_name = nm, sub_sockets = []\<rparr>),
               nextAddr := Suc (nextAddr r),
               subscriptions := (subscriptions r)(nm \<mapsto> nextAddr r)\<rparr>"
  have "registry_inv (subscribe_finish (nextAddr r) nm m s silent ?r0)"
  proof (rule registry_inv_subscribe_finish)
    fix n x
    assume new: "subscriptions ?r0 n = Some x"
    show "(x = nextAddr r \<or> sub_sockets (heap ?r0 x) \<noteq> []) \<and> sub_name (heap ?r0 x) = n
          \<and> x < nextAddr ?r0"
    proof (cases "n = nm")
      case True
      then show ?thesis using new by auto
    next
      case False
      then have "subscriptions r n = Some x" using new by simp
      then have "sub_sockets (heap r x) \<noteq> []" "sub_name (heap r x) = n" "x < nextAddr r"
        using assms by (auto simp: registry_inv_def)
      then show ?thesis by auto
    qed
  qed
  then show ?thesis
    using None by (simp add: subscribe_def lookup_or_new_def)
next
  case (Some a)
  then have ne: "sub_sockets (heap r a) \<noteq> []"
    using assms by (simp add: registry_inv_def)
  have "registry_inv (subscribe_finish a nm m s silent r)"
    using assms by (intro registry_inv_subscribe_finish) (auto simp: registry_inv_def)
  then show ?thesis
    using Some ne assms by (simp add: subscribe_def lookup_or_new_def)
qed


lemma registry_inv_close_step:
  assumes "registry_inv r"
  shows "registry_inv (close_step a s r)"
proof -
  have frame: "nextAddr (close_step a s r) = nextAddr r"
    "\<And>x. sub_name (heap (close_step a s r) x) = sub_name (heap r x)"
    "\<And>x. x \<noteq> a \<Longrightarrow> heap (close_step a s r) x = heap r x"
    "sub_sockets (heap (close_step a s r) a) = removeAll s (sub_sockets (heap r a))"
    "\<And>n. subscriptions (close_step a s r) n =
       (if removeAll s (sub_sockets (heap r a)) = [] \<and> n = sub_name (heap r a)
        then None else subscriptions r n)"
    by (auto simp: close_step_def removeSocket_def sockets_delete_def set_delete_def Let_def
        split: option.splits)
  show ?thesis
    unfolding registry_inv_def
  proof (intro allI impI)
    fix n x
    assume m: "subscriptions (close_step a s r) n = Some x"
    then have old: "subscriptions r n = Some x"
      by (simp add: frame split: if_splits)
    then have o: "sub_sockets (heap r x) \<noteq> []" "sub_name (heap r x) = n" "x < nextAddr r"
      using assms by (auto simp: registry_inv_def)
    have "sub_sockets (heap (close_step a s r) x) \<noteq> []"
    proof (cases "x = a")
      case True
      then show ?thesis using m o by (auto simp: frame split: if_splits)
    next
      case False
      then show ?thesis using o by (simp add: frame)
    qed
    then show "sub_sockets (heap (close_step a s r) x) \<noteq> [] \<and>
       sub_name (heap (close_step a s r) x) = n \<and> x < nextAddr (close_step a s r)"
      using o by (simp add: frame)
  qed
qed

lemma registry_inv_unsubscribe:
  assumes "registry_inv r"
  shows "registry_inv (unsubscribe nm m s silent r)"
  using assms registry_inv_close_step [OF assms]
  by (simp add: unsubscribe_def unsubscribe_fail_def close_step_def [symmetric] Let_def
      split: option.splits)

lemma registry_inv_onSocketClose_loop:
  "registry_inv r \<Longrightarrow> registry_inv (onSocketClose_loop as s r)"
  by (induction as arbitrary: r) (simp_all add: registry_inv_close_step)

lemma registry_inv_onSocketClose:
  "registry_inv r \<Longrightarrow> registry_inv (onSocketClose s r)"
  by (simp add: onSocketClose_def registry_inv_onSocketClose_loop split: option.splits)

lemma subscribeBulk_loop_fold:
  "subscribeBulk_loop i (length (m_names m)) m s r =
     fold (\<lambda>nm. subscribe nm m s True) (drop i (m_names m)) r"
proof (induction i "length (m_names m)" m s r rule: subscribeBulk_loop.induct)
  case (1 i m s r)
  show ?case
  proof (cases "i < length (m_names m)")
    case True
    then have "drop i (m_names m) = m_names m ! i # drop (Suc i) (m_names m)"
      by (simp add: Cons_nth_drop_Suc)
    then show ?thesis
      using True 1 by (simp add: subscribeBulk_loop.simps [of i])
  next
    case False
    then show ?thesis by (simp add: subscribeBulk_loop.simps [of i])
  qed
qed

lemma unsubscribeBulk_forEach_fold:
  "unsubscribeBulk_forEach nms m s r = fold (\<lambda>nm. unsubscribe nm m s True) nms r"
  by (induction nms arbitrary: r) simp_all

lemma registry_inv_subscribeBulk:
  assumes "registry_inv r"
  shows "registry_inv (subscribeBulk m s silent r)"
proof -
  have "registry_inv (fold (\<lambda>nm. subscribe nm m s True) nms r)" for nms
    using assms by (induction nms arbitrary: r) (simp_all add: registry_inv_subscribe)
  then show ?thesis
    by (simp add: subscribeBulk_def subscribeBulk_loop_fold Let_def)
qed

lemma registry_inv_unsubscribeBulk:
  assumes "registry_inv r"
  shows "registry_inv (unsubscribeBulk m s silent r)"
proof -
  have "registry_inv (fold (\<lambda>nm. unsubscribe nm m s True) nms r)" for nms
    using assms by (induction nms arbitrary: r) (simp_all add: registry_inv_unsubscribe)
  then show ?thesis
    by (simp add: unsubscribeBulk_def unsubscribeBulk_forEach_fold Let_def)
qed

lemma emit_Nil [simp]: "emit [] r = r"
  by (simp add: emit_def)

lemma emit_emit [simp]: "emit es (emit es' r) = emit (es' @ es) r"
  by (simp add: emit_def)

lemma send_loop_emit:
  "send_loop xs sender b r =
     emit (map (\<lambda>x. SendBuiltMessage x b True) (filter (\<lambda>x. Some x \<noteq> sender) xs)) r"
  by (induction xs arbitrary: r) simp_all

lemma sendToSubscribers_emits:
  "\<exists>es. (case sendToSubscribers nm m noDelay sender suppressRemote r of
           Inr r' \<Rightarrow> r' | Inl (e, r') \<Rightarrow> r') = emit es r"
  by (auto simp: sendToSubscribers_def send_loop_emit Let_def
      split: option.splits list.splits intro: exI [of _ "[]"])

lemma registry_inv_apply_operation:
  assumes "registry_inv r"
  shows "registry_inv (apply_operation x r)"
proof (cases x)
  case (SendToSubscribers nm m noDelay sender suppressRemote)
  obtain es where "apply_operation x r = emit es r"
    using sendToSubscribers_emits [of nm m noDelay sender suppressRemote r] SendToSubscribers
    by auto
  then show ?thesis using assms by simp
qed (use assms in \<open>simp_all add: registry_inv_subscribe registry_inv_unsubscribe
      registry_inv_subscribeBulk registry_inv_unsubscribeBulk registry_inv_onSocketClose
      registry_inv_setters\<close>)

lemma registry_inv_run: "registry_inv r \<Longrightarrow> registry_inv (run ops r)"
  by (induction ops arbitrary: r) (simp_all add: registry_inv_apply_operation)

text \<open>
  Claim C9. After any sequence of operations on a fresh registry (subscribe, unsubscribe,
  the two bulk operations and the close hook, and also \<^verbatim>\<open>setAction\<close>,
  \<^verbatim>\<open>setSubscriptionListener\<close> and \<^verbatim>\<open>sendToSubscribers\<close>), no name in \<^verbatim>\<open>subscriptions\<close>
  is bound to a Subscription with an empty socket set; so \<^verbatim>\<open>hasLocalSubscribers\<close> is true
  of a name exactly when \<^verbatim>\<open>getLocalSubscribers\<close> returns a non-empty set for it.
\<close>

theorem no_empty_subscription:
  "(subscriptions (run ops (init tp acts lg)) nm = Some a \<longrightarrow>
      sub_sockets (heap (run ops (init tp acts lg)) a) \<noteq> [])
   \<and> (hasLocalSubscribers nm (run ops (init tp acts lg))
        \<longleftrightarrow> getLocalSubscribers nm (run ops (init tp acts lg)) \<noteq> [])"
proof -
  have "registry_inv (run ops (init tp acts lg))"
    by (simp add: registry_inv_run registry_inv_init)
  then show ?thesis
    by (auto simp: registry_inv_def hasLocalSubscribers_def getLocalSubscribers_def
        split: option.splits)
qed

theorem no_empty_subscription_witness:
  "subscriptions (run example_ops (init 3 (\<lambda>_. None) (\<lambda>_. False))) ''a'' = Some 0
   \<and> sub_sockets (heap (run example_ops (init 3 (\<lambda>_. None) (\<lambda>_. False))) 0) = [2]
   \<and> hasLocalSubscribers ''a'' (run example_ops (init 3 (\<lambda>_. None) (\<lambda>_. False)))
   \<and> getLocalSubscribers ''a'' (run example_ops (init 3 (\<lambda>_. None) (\<lambda>_. False))) = [2]"
  using no_empty_subscription [of example_ops 3 "\<lambda>_. None" "\<lambda>_. False" "''a''" 0]
  by (simp add: example_ops_def msg_def init_def op_defs hasLocalSubscribers_def
      getLocalSubscribers_def Let_def)

subsection \<open>Fanout\<close>

text \<open>
  Claim C5. In every state reached from a fresh registry, \<^verbatim>\<open>sendToSubscribers\<close> returns
  without a throw, leaves both maps and the Subscription objects as they were, and the
  calls it makes are these, in this order: the message goes to the cluster node exactly
  when the sender is not null and \<^verbatim>\<open>suppressRemote\<close> is false; then, when the name has a
  local subscription, \<^verbatim>\<open>onBroadcast\<close> with the message and the number of all subscribers
  (the sender among them), \<^verbatim>\<open>getMessage\<close> on the first subscriber, and
  \<^verbatim>\<open>sendBuiltMessage\<close> of the built message, with \<^verbatim>\<open>true\<close>, on every subscriber but
  the sender, in the order of the set. The name has a local subscription exactly when it
  has a subscriber.
\<close>

theorem sendToSubscribers_fanout:
  "(\<exists>r'. sendToSubscribers nm m noDelay sender suppressRemote (run ops (init tp acts lg)) = Inr r'
       \<and> new_calls (run ops (init tp acts lg)) r' =
           (if sender \<noteq> None \<and> \<not> suppressRemote then [ClusterSend m] else [])
           @ (case getLocalSubscribers nm (run ops (init tp acts lg)) of
                [] \<Rightarrow> []
              | first # rest \<Rightarrow>
                  OnBroadcast m (length (first # rest))
                  # GetMessage first m
                  # map (\<lambda>x. SendBuiltMessage x (Built first m) True)
                      (filter (\<lambda>x. Some x \<noteq> sender) (first # rest)))
       \<and> calls r' = calls (run ops (init tp acts lg)) @ new_calls (run ops (init tp acts lg)) r'
       \<and> filter (\<lambda>e. e = ClusterSend m) (new_calls (run ops (init tp acts lg)) r') =
           (if sender \<noteq> None \<and> \<not> suppressRemote then [ClusterSend m] else [])
       \<and> subscriptions r' = subscriptions (run ops (init tp acts lg))
       \<and> sockets r' = sockets (run ops (init tp acts lg))
       \<and> heap r' = heap (run ops (init tp acts lg)))
   \<and> hasLocalSubscribers nm (run ops (init tp acts lg))
       = (getLocalSubscribers nm (run ops (init tp acts lg)) \<noteq> [])"
proof -
  let ?r = "run ops (init tp acts lg)"
  let ?fwd = "if sender \<noteq> None \<and> \<not> suppressRemote then [ClusterSend m] else []"
  let ?local = "case getLocalSubscribers nm ?r of
                [] \<Rightarrow> []
              | first # rest \<Rightarrow>
                  OnBroadcast m (length (first # rest))
                  # GetMessage first m
                  # map (\<lambda>x. SendBuiltMessage x (Built first m) True)
                      (filter (\<lambda>x. Some x \<noteq> sender) (first # rest))"
  have inv: "registry_inv ?r"
    by (simp add: registry_inv_run registry_inv_init)
  have res: "sendToSubscribers nm m noDelay sender suppressRemote ?r = Inr (emit (?fwd @ ?local) ?r)"
  proof (cases "subscriptions ?r nm")
    case None
    then show ?thesis
      by (simp add: sendToSubscribers_def getLocalSubscribers_def)
  next
    case (Some a)
    then have "sub_sockets (heap ?r a) \<noteq> []"
      using inv by (simp add: registry_inv_def)
    then obtain first rest where "sub_sockets (heap ?r a) = first # rest"
      by (cases "sub_sockets (heap ?r a)") auto
    then show ?thesis
      using Some
      by (simp add: sendToSubscribers_def getLocalSubscribers_def send_loop_emit Let_def)
  qed
  have has: "hasLocalSubscribers nm ?r = (getLocalSubscribers nm ?r \<noteq> [])"
    using inv
    by (auto simp: registry_inv_def getLocalSubscribers_def hasLocalSubscribers_def
        split: option.splits)
  have calls: "calls (emit (?fwd @ ?local) ?r) = calls ?r @ (?fwd @ ?local)"
    by simp
  then have new: "new_calls ?r (emit (?fwd @ ?local) ?r) = ?fwd @ ?local"
    by (rule new_calls_append)
  have "filter (\<lambda>e. e = ClusterSend m) ?local = []"
    by (cases "getLocalSubscribers nm ?r") simp_all
  then have fwd: "filter (\<lambda>e. e = ClusterSend m) (?fwd @ ?local) = ?fwd"
    by simp
  have "new_calls ?r (emit (?fwd @ ?local) ?r) = ?fwd @ ?local
       \<and> calls (emit (?fwd @ ?local) ?r) = calls ?r @ new_calls ?r (emit (?fwd @ ?local) ?r)
       \<and> filter (\<lambda>e. e = ClusterSend m) (new_calls ?r (emit (?fwd @ ?local) ?r)) = ?fwd
       \<and> subscriptions (emit (?fwd @ ?local) ?r) = subscriptions ?r
       \<and> sockets (emit (?fwd @ ?local) ?r) = sockets ?r
       \<and> heap (emit (?fwd @ ?local) ?r) = heap ?r"
    using calls fwd by (simp only: new emit_fields simp_thms)
  then show ?thesis
    using res has by blast
qed

lemma room_subscribers:
  "getLocalSubscribers ''room/1'' (run room_ops (init 3 (\<lambda>_. None) (\<lambda>_. False))) = [1, 2, 3]"
  by (simp add: room_ops_def msg_def init_def op_defs getLocalSubscribers_def Let_def)

text \<open>
  Sockets 1, 2 and 3 are subscribed to room/1. A message from socket 2 goes to the cluster
  node and to sockets 1 and 3; a message from the cluster (null sender) goes to all three
  and not to the cluster node.
\<close>

theorem sendToSubscribers_fanout_witness:
  "(\<exists>r'. sendToSubscribers ''room/1'' (msg 7) False (Some 2) False
            (run room_ops (init 3 (\<lambda>_. None) (\<lambda>_. False))) = Inr r'
       \<and> new_calls (run room_ops (init 3 (\<lambda>_. None) (\<lambda>_. False))) r' =
           [ClusterSend (msg 7), OnBroadcast (msg 7) 3, GetMessage 1 (msg 7),
            SendBuiltMessage 1 (Built 1 (msg 7)) True, SendBuiltMessage 3 (Built 1 (msg 7)) True])
   \<and> (\<exists>r'. sendToSubscribers ''room/1'' (msg 7) False None False
            (run room_ops (init 3 (\<lambda>_. None) (\<lambda>_. False))) = Inr r'
       \<and> new_calls (run room_ops (init 3 (\<lambda>_. None) (\<lambda>_. False))) r' =
           [OnBroadcast (msg 7) 3, GetMessage 1 (msg 7),
            SendBuiltMessage 1 (Built 1 (msg 7)) True, SendBuiltMessage 2 (Built 1 (msg 7)) True,
            SendBuiltMessage 3 (Built 1 (msg 7)) True])"
proof -
  let ?r = "run room_ops (init 3 (\<lambda>_. None) (\<lambda>_. False))"
  obtain r1 where 1: "sendToSubscribers ''room/1'' (msg 7) False (Some 2) False ?r = Inr r1"
    and "new_calls ?r r1 =
           (if Some 2 \<noteq> (None :: SocketWrapper option) \<and> \<not> False then [ClusterSend (msg 7)] else [])
           @ (case getLocalSubscribers ''room/1'' ?r of
                [] \<Rightarrow> []
              | first # rest \<Rightarrow>
                  OnBroadcast (msg 7) (length (first # rest))
                  # GetMessage first (msg 7)
                  # map (\<lambda>x. SendBuiltMessage x (Built first (msg 7)) True)
                      (filter (\<lambda>x. Some x \<noteq> Some 2) (first # rest)))"
    using sendToSubscribers_fanout [of "''room/1''" "msg 7" False "Some 2" False room_ops 3
        "\<lambda>_. None" "\<lambda>_. False"]
    by blast
  then have 2: "new_calls ?r r1 =
           [ClusterSend (msg 7), OnBroadcast (msg 7) 3, GetMessage 1 (msg 7),
            SendBuiltMessage 1 (Built 1 (msg 7)) True, SendBuiltMessage 3 (Built 1 (msg 7)) True]"
    by (simp add: room_subscribers)
  obtain r2 where 3: "sendToSubscribers ''room/1'' (msg 7) False None False ?r = Inr r2"
    and "new_calls ?r r2 =
           (if None \<noteq> (None :: SocketWrapper option) \<and> \<not> False then [ClusterSend (msg 7)] else [])
           @ (case getLocalSubscribers ''room/1'' ?r of
                [] \<Rightarrow> []
              | first # rest \<Rightarrow>
                  OnBroadcast (msg 7) (length (first # rest))
                  # GetMessage first (msg 7)
                  # map (\<lambda>x. SendBuiltMessage x (Built first (msg 7)) True)
                      (filter (\<lambda>x. Some x \<noteq> None) (first # rest)))"
    using sendToSubscribers_fanout [of "''room/1''" "msg 7" False None False room_ops 3
        "\<lambda>_. None" "\<lambda>_. False"]
    by blast
  then have 4: "new_calls ?r r2 =
           [OnBroadcast (msg 7) 3, GetMessage 1 (msg 7),
            SendBuiltMessage 1 (Built 1 (msg 7)) True, SendBuiltMessage 2 (Built 1 (msg 7)) True,
            SendBuiltMessage 3 (Built 1 (msg 7)) True]"
    by (simp add: room_subscribers)
  show ?thesis
    using 1 2 3 4 by blast
qed

subsection \<open>Bulk operations\<close>

lemma addSocket_calls:
  "\<exists>es. calls (addSocket a s r) = calls r @ es
      \<and> filter isSendAckMessage es = [] \<and> filter isSendMessage es = []"
  by (simp add: addSocket_def Let_def)

lemma removeSocket_calls:
  "\<exists>es. calls (removeSocket a s r) = calls r @ es
      \<and> filter isSendAckMessage es = [] \<and> filter isSendMessage es = []"
  by (simp add: removeSocket_def Let_def split: option.splits)

lemma subscribe_finish_calls:
  "\<exists>es. calls (subscribe_finish a nm m s silent r) = calls r @ es
      \<and> (silent \<longrightarrow> filter isSendAckMessage es = [])"
proof -
  obtain es where "calls (addSocket a s (sockets_add a s r)) = calls r @ es"
     "filter isSendAckMessage es = []"
    using addSocket_calls [of a s "sockets_add a s r"] by (auto simp: sockets_add_def)
  then show ?thesis
    by (simp add: subscribe_finish_def Let_def)
qed

lemma subscribe_calls:
  "\<exists>es. calls (subscribe nm m s silent r) = calls r @ es
      \<and> (silent \<longrightarrow> filter isSendAckMessage es = [])"
proof (cases "subscriptions r nm")
  case None
  then show ?thesis
    using subscribe_finish_calls [of "nextAddr r" nm m s silent
       "r\<lparr>heap := (heap r)(nextAddr r := \<lparr>sub_name = nm, sub_sockets = []\<rparr>),
         nextAddr := Suc (nextAddr r), subscriptions := (subscriptions r)(nm \<mapsto> nextAddr r)\<rparr>"]
    by (simp add: subscribe_def lookup_or_new_def)
next
  case (Some a)
  then show ?thesis
    using subscribe_finish_calls [of a nm m s silent r]
      subscribe_finish_calls [of a nm m s silent "r\<lparr>subscriptions := (subscriptions r)(nm \<mapsto> a)\<rparr>"]
    by (simp add: subscribe_def lookup_or_new_def)
qed

lemma unsubscribe_calls:
  "\<exists>es. calls (unsubscribe nm m s True r) = calls r @ es \<and> filter isSendMessage es = []"
proof -
  have "\<exists>es. calls (removeSocket a s (sockets_delete a s r)) = calls r @ es
      \<and> filter isSendMessage es = []" for a
    using removeSocket_calls [of a s "sockets_delete a s r"] by (auto simp: sockets_delete_def)
  then show ?thesis
    by (simp add: unsubscribe_def unsubscribe_fail_def Let_def split: option.splits)
qed

lemma fold_subscribe_calls:
  "\<exists>es. calls (fold (\<lambda>nm. subscribe nm m s True) nms r) = calls r @ es
      \<and> filter isSendAckMessage es = []"
proof (induction nms arbitrary: r)
  case Nil
  show ?case by simp
next
  case (Cons nm nms)
  obtain es1 where 1: "calls (subscribe nm m s True r) = calls r @ es1"
    "filter isSendAckMessage es1 = []"
    using subscribe_calls [of nm m s True r] by auto
  obtain es2 where 2: "calls (fold (\<lambda>nm. subscribe nm m s True) nms (subscribe nm m s True r))
      = calls (subscribe nm m s True r) @ es2" "filter isSendAckMessage es2 = []"
    using Cons [of "subscribe nm m s True r"] by auto
  have "calls (fold (\<lambda>nm. subscribe nm m s True) (nm # nms) r) = calls r @ (es1 @ es2)"
    using 1 2 by simp
  moreover have "filter isSendAckMessage (es1 @ es2) = []"
    using 1 2 by simp
  ultimately show ?case by blast
qed

lemma fold_unsubscribe_calls:
  "\<exists>es. calls (fold (\<lambda>nm. unsubscribe nm m s True) nms r) = calls r @ es
      \<and> filter isSendMessage es = []"
proof (induction nms arbitrary: r)
  case Nil
  show ?case by simp
next
  case (Cons nm nms)
  obtain es1 where 1: "calls (unsubscribe nm m s True r) = calls r @ es1"
    "filter isSendMessage es1 = []"
    using unsubscribe_calls [of nm m s r] by auto
  obtain es2 where 2: "calls (fold (\<lambda>nm. unsubscribe nm m s True) nms (unsubscribe nm m s True r))
      = calls (unsubscribe nm m s True r) @ es2" "filter isSendMessage es2 = []"
    using Cons [of "unsubscribe nm m s True r"] by auto
  have "calls (fold (\<lambda>nm. unsubscribe nm m s True) (nm # nms) r) = calls r @ (es1 @ es2)"
    using 1 2 by simp
  moreover have "filter isSendMessage (es1 @ es2) = []"
    using 1 2 by simp
  ultimately show ?case by blast
qed

text \<open>
  Claim C7. \<^verbatim>\<open>subscribeBulk\<close> subscribes the socket to the names of the message one after
  the other, in the order of the array, each time with \<^verbatim>\<open>silent = true\<close>; among the calls
  it makes there is no acknowledgement when the outer \<^verbatim>\<open>silent\<close> is true, and exactly one
  otherwise: the last call, to the socket, with the topic, the action and the
  correlation id of the bulk message.
\<close>

theorem subscribeBulk_single_ack:
  "subscribeBulk m s silent r =
     (let r1 = fold (\<lambda>nm. subscribe nm m s True) (m_names m) r
      in if silent then r1
         else emit [SendAckMessage s
                      \<lparr> m_topic = m_topic m, m_action = m_action m, m_name = None, m_names = [],
                        m_correlationId = m_correlationId m, m_originalAction = None \<rparr>] r1)
   \<and> filter isSendAckMessage (new_calls r (subscribeBulk m s silent r)) =
       (if silent then []
        else [SendAckMessage s
                \<lparr> m_topic = m_topic m, m_action = m_action m, m_name = None, m_names = [],
                  m_correlationId = m_correlationId m, m_originalAction = None \<rparr>])"
proof -
  obtain es where es: "calls (fold (\<lambda>nm. subscribe nm m s True) (m_names m) r) = calls r @ es"
    "filter isSendAckMessage es = []"
    using fold_subscribe_calls by blast
  have 1: "subscribeBulk m s silent r =
     (let r1 = fold (\<lambda>nm. subscribe nm m s True) (m_names m) r
      in if silent then r1 else emit [SendAckMessage s (bulk_ack m)] r1)"
    using subscribeBulk_loop_fold [of 0 m s r] by (simp add: subscribeBulk_def Let_def)
  have "calls (subscribeBulk m s silent r) =
      calls r @ (es @ (if silent then [] else [SendAckMessage s (bulk_ack m)]))"
    using es by (simp add: 1 Let_def)
  then have "new_calls r (subscribeBulk m s silent r) =
      es @ (if silent then [] else [SendAckMessage s (bulk_ack m)])"
    by (rule new_calls_append)
  then have 2: "filter isSendAckMessage (new_calls r (subscribeBulk m s silent r)) =
      (if silent then [] else [SendAckMessage s (bulk_ack m)])"
    using es by simp
  show ?thesis
    using 1 2 by (simp add: bulk_ack_def)
qed

theorem subscribeBulk_single_ack_witness:
  "new_calls registry0 (subscribeBulk bulk_msg 1 False registry0) =
     [OnClose 1, ClusterAdd ''a'', ClusterAdd ''b'', ClusterAdd ''c'',
      SendAckMessage 1 \<lparr> m_topic = 3, m_action = Some 2, m_name = None, m_names = [],
                          m_correlationId = Some ''k'', m_originalAction = None \<rparr>]
   \<and> filter isSendAckMessage (new_calls registry0 (subscribeBulk bulk_msg 1 True registry0)) = []"
  using subscribeBulk_single_ack [of bulk_msg 1 False registry0]
    subscribeBulk_single_ack [of bulk_msg 1 True registry0]
  by (simp add: bulk_msg_def registry0_def init_def op_defs new_calls_def Let_def)

lemma subscriber_iff:
  "s \<in> set (getLocalSubscribers nm r) \<longleftrightarrow>
     (\<exists>a. subscriptions r nm = Some a \<and> s \<in> set (sub_sockets (heap r a)))"
  by (cases "subscriptions r nm") (simp_all add: getLocalSubscribers_def)

lemma subscribe_finish_keeps_entry:
  assumes "subscriptions r nm = Some a" and "a = b \<or> s \<in> set (sub_sockets (heap r a))"
  shows "subscriptions (subscribe_finish b nm' m s silent r) nm = Some a
         \<and> s \<in> set (sub_sockets (heap (subscribe_finish b nm' m s silent r) a))"
proof -
  have "subscriptions (sockets_add b s r) nm = Some a"
    using assms by (simp add: sockets_add_def)
  moreover have "s \<in> set (sub_sockets (heap (sockets_add b s r) a))"
    using assms by (auto simp: sockets_add_def set_add_def)
  ultimately show ?thesis
    by (simp add: subscribe_finish_def addSocket_frame Let_def)
qed

lemma subscribe_keeps_entry:
  assumes "subscriptions r nm = Some a" and "s \<in> set (sub_sockets (heap r a))"
  shows "subscriptions (subscribe nm' m s silent r) nm = Some a
         \<and> s \<in> set (sub_sockets (heap (subscribe nm' m s silent r) a))"
proof (cases "nm' = nm")
  case True
  then show ?thesis
    using assms by (simp add: subscribe_dup)
next
  case False
  show ?thesis
  proof (cases "subscriptions r nm'")
    case None
    let ?r0 = "r\<lparr>heap := (heap r)(nextAddr r := \<lparr>sub_name = nm', sub_sockets = []\<rparr>),
                 nextAddr := Suc (nextAddr r),
                 subscriptions := (subscriptions r)(nm' \<mapsto> nextAddr r)\<rparr>"
    have "subscriptions ?r0 nm = Some a"
      using assms False by simp
    moreover have "a = nextAddr r \<or> s \<in> set (sub_sockets (heap ?r0 a))"
      using assms by simp
    ultimately have "subscriptions (subscribe_finish (nextAddr r) nm' m s silent ?r0) nm = Some a
         \<and> s \<in> set (sub_sockets (heap (subscribe_finish (nextAddr r) nm' m s silent ?r0) a))"
      by (rule subscribe_finish_keeps_entry)
    then show ?thesis
      using None by (simp add: subscribe_def lookup_or_new_def)
  next
    case (Some b)
    let ?r0 = "r\<lparr>subscriptions := (subscriptions r)(nm' \<mapsto> b)\<rparr>"
    have 1: "subscriptions (subscribe_finish b nm' m s silent r) nm = Some a
         \<and> s \<in> set (sub_sockets (heap (subscribe_finish b nm' m s silent r) a))"
      using assms by (intro subscribe_finish_keeps_entry) simp_all
    have 2: "subscriptions (subscribe_finish b nm' m s silent ?r0) nm = Some a
         \<and> s \<in> set (sub_sockets (heap (subscribe_finish b nm' m s silent ?r0) a))"
      using assms False by (intro subscribe_finish_keeps_entry) simp_all
    show ?thesis
      using Some 1 2 assms by (simp add: subscribe_def lookup_or_new_def)
  qed
qed

lemma subscribe_keeps_subscriber:
  "s \<in> set (getLocalSubscribers nm r) \<Longrightarrow>
   s \<in> set (getLocalSubscribers nm (subscribe nm' m s silent r))"
  unfolding subscriber_iff using subscribe_keeps_entry by blast

lemma fold_subscribe_keeps_subscriber:
  "s \<in> set (getLocalSubscribers nm r) \<Longrightarrow>
   s \<in> set (getLocalSubscribers nm (fold (\<lambda>nm. subscribe nm m s True) nms r))"
  by (induction nms arbitrary: r) (simp_all add: subscribe_keeps_subscriber)

lemma fold_subscribe_frame:
  "shouldLog (fold (\<lambda>nm. subscribe nm m s True) nms r) = shouldLog r
   \<and> constants (fold (\<lambda>nm. subscribe nm m s True) nms r) = constants r
   \<and> topic (fold (\<lambda>nm. subscribe nm m s True) nms r) = topic r"
  by (induction nms arbitrary: r) (simp_all add: subscribe_frame)

lemma subscribe_makes_subscriber:
  "s \<in> set (getLocalSubscribers nm (subscribe nm m s silent r))"
  unfolding subscriber_iff using subscribe_subscribed [of nm m s silent r] by blast

lemma fold_subscribe_duplicate:
  assumes "s \<in> set (getLocalSubscribers nm r) \<or> nm \<in> set xs"
  shows "SendMessage s (multiple_subscriptions_msg r m nm)
           \<in> set (new_calls r (fold (\<lambda>nm. subscribe nm m s True) (xs @ nm # ys) r))"
proof -
  let ?f = "\<lambda>nms. fold (\<lambda>nm. subscribe nm m s True) nms"
  let ?r1 = "?f xs r"
  have sub: "s \<in> set (getLocalSubscribers nm ?r1)"
  proof (cases "s \<in> set (getLocalSubscribers nm r)")
    case True
    then show ?thesis by (rule fold_subscribe_keeps_subscriber)
  next
    case False
    then have "nm \<in> set xs" using assms by simp
    then obtain as bs where xs: "xs = as @ nm # bs"
      by (auto simp: in_set_conv_decomp)
    have "s \<in> set (getLocalSubscribers nm (subscribe nm m s True (?f as r)))"
      by (rule subscribe_makes_subscriber)
    then have "s \<in> set (getLocalSubscribers nm (?f bs (subscribe nm m s True (?f as r))))"
      by (rule fold_subscribe_keeps_subscriber)
    then show ?thesis by (simp add: xs)
  qed
  then obtain a where a: "subscriptions ?r1 nm = Some a" "s \<in> set (sub_sockets (heap ?r1 a))"
    unfolding subscriber_iff by blast
  have frame: "shouldLog ?r1 = shouldLog r" "constants ?r1 = constants r" "topic ?r1 = topic r"
    using fold_subscribe_frame [of m s xs r] by simp_all
  let ?reply = "SendMessage s (multiple_subscriptions_msg r m nm)"
  have "multiple_subscriptions_msg ?r1 m nm = multiple_subscriptions_msg r m nm"
    by (simp add: multiple_subscriptions_msg_def frame)
  then have "\<exists>w. calls (subscribe nm m s True ?r1) = calls ?r1 @ w @ [?reply]"
    using subscribe_dup [OF a, of m True] by auto
  then obtain w where 2: "calls (subscribe nm m s True ?r1) = calls ?r1 @ w @ [?reply]"
    by blast
  obtain es1 where 1: "calls ?r1 = calls r @ es1"
    using fold_subscribe_calls by blast
  obtain es3 where 3: "calls (?f ys (subscribe nm m s True ?r1)) = calls (subscribe nm m s True ?r1) @ es3"
    using fold_subscribe_calls by blast
  have "calls (?f (xs @ nm # ys) r) = calls r @ (es1 @ w @ [?reply] @ es3)"
    using 1 2 3 by simp
  then have "new_calls r (?f (xs @ nm # ys) r) = es1 @ w @ [?reply] @ es3"
    by (rule new_calls_append)
  then show ?thesis by simp
qed

text \<open>
  Claim C6, as the code has it. In \<^verbatim>\<open>subscribeBulk\<close>, a name the socket is already
  subscribed to when its turn comes (before the call, or through an earlier occurrence in
  the array) makes the registry send the socket the MULTIPLE_SUBSCRIPTIONS message for
  that name. \<^verbatim>\<open>unsubscribeBulk\<close> sends no message with \<^verbatim>\<open>sendMessage\<close> at all: the inner
  \<^verbatim>\<open>unsubscribe\<close> runs with \<^verbatim>\<open>silent = true\<close>, and it sends NOT_SUBSCRIBED only when it
  is not silent.
\<close>

theorem bulk_replies:
  "(m_names m = xs @ nm # ys \<and> (s \<in> set (getLocalSubscribers nm r) \<or> nm \<in> set xs) \<longrightarrow>
      SendMessage s \<lparr> m_topic = topic r,
                      m_action = read_key (constants r) ''MULTIPLE_SUBSCRIPTIONS'',
                      m_name = Some nm, m_names = [], m_correlationId = None,
                      m_originalAction = m_action m \<rparr>
        \<in> set (new_calls r (subscribeBulk m s silent r)))
   \<and> filter isSendMessage (new_calls r (unsubscribeBulk m s silent r)) = []"
proof -
  have "SendMessage s (multiple_subscriptions_msg r m nm) \<in> set (new_calls r (subscribeBulk m s silent r))"
    if names: "m_names m = xs @ nm # ys" and dup: "s \<in> set (getLocalSubscribers nm r) \<or> nm \<in> set xs"
  proof -
    let ?r1 = "fold (\<lambda>nm. subscribe nm m s True) (m_names m) r"
    obtain es where es: "calls ?r1 = calls r @ es"
      using fold_subscribe_calls by blast
    have "SendMessage s (multiple_subscriptions_msg r m nm) \<in> set (new_calls r ?r1)"
      using fold_subscribe_duplicate [OF dup, of m ys] names by simp
    then have "SendMessage s (multiple_subscriptions_msg r m nm) \<in> set es"
      using new_calls_append [OF es] by simp
    moreover have "calls (subscribeBulk m s silent r) =
        calls r @ (es @ (if silent then [] else [SendAckMessage s (bulk_ack m)]))"
      using es subscribeBulk_loop_fold [of 0 m s r] by (simp add: subscribeBulk_def Let_def)
    ultimately show ?thesis
      using new_calls_append [of "subscribeBulk m s silent r" r] by simp
  qed
  moreover have "filter isSendMessage (new_calls r (unsubscribeBulk m s silent r)) = []"
  proof -
    obtain es where es: "calls (fold (\<lambda>nm. unsubscribe nm m s True) (m_names m) r) = calls r @ es"
      "filter isSendMessage es = []"
      using fold_unsubscribe_calls by blast
    have "calls (unsubscribeBulk m s silent r) =
        calls r @ (es @ (if silent then [] else [SendAckMessage s (bulk_ack m)]))"
      using es by (simp add: unsubscribeBulk_def unsubscribeBulk_forEach_fold Let_def)
    then have "new_calls r (unsubscribeBulk m s silent r) =
        es @ (if silent then [] else [SendAckMessage s (bulk_ack m)])"
      by (rule new_calls_append)
    then show ?thesis using es by simp
  qed
  ultimately show ?thesis
    by (simp add: multiple_subscriptions_msg_def)
qed


theorem bulk_replies_witness:
  "m_names dup_msg = [''a'', ''b''] @ ''a'' # []
   \<and> ''a'' \<in> set [''a'', ''b'']
   \<and> SendMessage 1 \<lparr> m_topic = 3, m_action = None, m_name = Some ''a'', m_names = [],
                        m_correlationId = None, m_originalAction = Some 2 \<rparr>
        \<in> set (new_calls registry0 (subscribeBulk dup_msg 1 False registry0))
   \<and> filter isSendMessage (new_calls registry0 (unsubscribeBulk dup_msg 1 False registry0)) = []"
proof -
  have names: "m_names dup_msg = [''a'', ''b''] @ ''a'' # []"
    by (simp add: dup_msg_def)
  have "topic registry0 = 3" "read_key (constants registry0) ''MULTIPLE_SUBSCRIPTIONS'' = None"
    "m_action dup_msg = Some 2"
    by (simp_all add: registry0_def init_def read_key_def dup_msg_def)
  then show ?thesis
    using names bulk_replies [of dup_msg "[''a'', ''b'']" "''a''" "[]" 1 registry0 False]
    by simp
qed

text \<open>
  Socket 1 is not subscribed to y. The single unsubscribe answers with NOT_SUBSCRIBED; the
  bulk unsubscribe of the same name sends the acknowledgement and nothing else.
\<close>

theorem unsubscribeBulk_reply_counterexample:
  "1 \<notin> set (getLocalSubscribers ''y'' registry0)
   \<and> new_calls registry0 (unsubscribe ''y'' (msg 3) 1 False registry0) =
       [SendMessage 1 \<lparr> m_topic = 3, m_action = None, m_name = Some ''y'', m_names = [],
                          m_correlationId = None, m_originalAction = Some 3 \<rparr>]
   \<and> new_calls registry0 (unsubscribeBulk y_msg 1 False registry0) =
       [SendAckMessage 1 \<lparr> m_topic = 3, m_action = Some 3, m_name = None, m_names = [],
                             m_correlationId = Some ''k'', m_originalAction = None \<rparr>]"
  by (simp add: registry0_def init_def msg_def y_msg_def getLocalSubscribers_def unsubscribe_def
      unsubscribe_fail_def unsubscribeBulk_def not_subscribed_msg_def bulk_ack_def read_key_def
      new_calls_def Let_def)

subsection \<open>Local subscribers\<close>

text \<open>
  Claim C10. For a name without an entry in \<^verbatim>\<open>subscriptions\<close>,
  \<^verbatim>\<open>getLocalSubscribers\<close> returns a set, and the set is empty. (The comment above the
  method speaks of \<^verbatim>\<open>null\<close>; the method returns \<^verbatim>\<open>new Set()\<close>, and its result type has
  no \<^verbatim>\<open>null\<close>.)
\<close>

theorem getLocalSubscribers_absent:
  "subscriptions r nm = None \<Longrightarrow> getLocalSubscribers nm r = []"
  by (simp add: getLocalSubscribers_def)

theorem getLocalSubscribers_absent_witness:
  "subscriptions registry0 ''a'' = None \<and> getLocalSubscribers ''a'' registry0 = []"
  using getLocalSubscribers_absent [of registry0 "''a''"]
  by (simp add: registry0_def init_def)

end
